theory Spec2Isabelle
  imports Main "HOL-Library.Word" "HOL-Library.Multiset"
begin

unbundle bit_operations_syntax

section \<open>The PreLogin packet encoder of lib/srv/db/sqlserver/protocol/prelogin.go\<close>

text \<open>
  \<open>WritePrelogin\<close> assembles one TDS PreLogin packet in a \<open>bytes.Buffer\<close> and writes it
  to a connection. The embedding follows the source statement by statement:
  \<^item> Go's \<open>uint8\<close> is \<open>8 word\<close>, \<open>uint16\<close> is \<open>16 word\<close> (conversions truncate, \<open>+=\<close> wraps);
  \<^item> Go's \<open>error\<close> is \<open>error option\<close> (\<open>None\<close> is \<open>nil\<close>);
  \<^item> the buffer \<open>w\<close> is the list of bytes it holds; its methods are taken from a record, so
    that the error branches of the source are branches of the model, and the record
    \<open>bytes_Buffer\<close> gives them the behaviour of Go's \<open>bytes.Buffer\<close>;
  \<^item> the map \<open>fields\<close> is an association list with distinct keys, in the order \<open>range\<close>
    happens to yield its entries (Go leaves that order unspecified);
  \<^item> the connection is the function from the bytes passed to \<open>conn.Write\<close> to what that
    call returns; the model records the arguments of the calls.
  The debugging \<open>fmt.Printf\<close> of the source writes to standard output only and is left out.
\<close>

subsection \<open>Data\<close>

type_synonym byte = "8 word"
type_synonym bytes = "byte list"
type_synonym uint16 = "16 word"

datatype error = Err string | TraceWrap error

text \<open>How a run of a function ends: it yields a value, returns a non-nil error, or panics.\<close>

datatype 'a res = Ok 'a | ReturnErr error | Panic

text \<open>The methods of the buffer that the encoder calls (\<open>io.ByteWriter\<close> and \<open>io.Writer\<close>).\<close>

record writer =
  WriteByte :: "bytes \<Rightarrow> byte \<Rightarrow> bytes \<times> error option"
  Write :: "bytes \<Rightarrow> bytes \<Rightarrow> bytes \<times> int \<times> error option"

text \<open>
  Go's \<open>bytes.Buffer\<close>: \<open>WriteByte\<close> and \<open>Write\<close> append to the contents; the returned
  error is always \<open>nil\<close> and \<open>Write\<close> returns \<open>len(p)\<close>.
\<close>

definition Buffer_WriteByte :: "bytes \<Rightarrow> byte \<Rightarrow> bytes \<times> error option" where
  "Buffer_WriteByte b c = (b @ [c], None)"

definition Buffer_Write :: "bytes \<Rightarrow> bytes \<Rightarrow> bytes \<times> int \<times> error option" where
  "Buffer_Write b p = (b @ p, int (length p), None)"

definition bytes_Buffer :: writer where
  "bytes_Buffer = \<lparr>WriteByte = Buffer_WriteByte, Write = Buffer_Write\<rparr>"

text \<open>
  \<open>binary.Write(w, binary.BigEndian, v)\<close> for a \<open>uint16\<close>: the two bytes of \<open>v\<close>, high byte
  first, go to \<open>w.Write\<close>; the byte count is dropped and the error returned.
\<close>

definition BigEndian_bytes :: "uint16 \<Rightarrow> bytes" where
  "BigEndian_bytes v = [ucast (drop_bit 8 v), ucast v]"

definition binary_Write :: "writer \<Rightarrow> bytes \<Rightarrow> uint16 \<Rightarrow> bytes \<times> error option" where
  "binary_Write wr w v = (case Write wr w (BigEndian_bytes v) of (w', n, err) \<Rightarrow> (w', err))"

text \<open>
  \<open>binary.BigEndian.PutUint16(pktBytes[i:], v)\<close>: panics unless two bytes exist at \<open>i\<close>.
\<close>

definition PutUint16 :: "bytes \<Rightarrow> nat \<Rightarrow> uint16 \<Rightarrow> bytes res" where
  "PutUint16 pktBytes i v =
     (if length pktBytes < i + 2 then Panic
      else Ok (pktBytes[i := ucast (drop_bit 8 v), i + 1 := ucast v]))"

subsection \<open>Constants\<close>

text \<open>
  Modelled from the spec: the constants of the package are declared outside prelogin.go.
  The option kinds are VERSION = 0, ENCRYPTION = 1, INSTOPT = 2, THREADID = 3, MARS = 4,
  TERMINATOR = 0xFF, and the value of the ENCRYPTION option is 0x02. The packet type tag
  \<open>PacketTypePreLogin\<close> is a parameter of the model.
\<close>

definition preloginVERSION :: byte where "preloginVERSION = 0"
definition preloginENCRYPTION :: byte where "preloginENCRYPTION = 1"
definition preloginINSTOPT :: byte where "preloginINSTOPT = 2"
definition preloginTHREADID :: byte where "preloginTHREADID = 3"
definition preloginMARS :: byte where "preloginMARS = 4"
definition preloginTERMINATOR :: byte where "preloginTERMINATOR = 0xFF"
definition encryptNotSup :: byte where "encryptNotSup = 2"

text \<open>The map literal; \<open>[]byte("teleport")\<close> is written out in ASCII.\<close>

definition fields :: "(byte \<times> bytes) list" where
  "fields =
     [(preloginVERSION, [0, 0, 0, 0, 0, 0]),
      (preloginENCRYPTION, [encryptNotSup]),
      (preloginINSTOPT, [0x74, 0x65, 0x6c, 0x65, 0x70, 0x6f, 0x72, 0x74] @ [0]),
      (preloginTHREADID, [0, 0, 0, 0]),
      (preloginMARS, [0])]"

text \<open>\<open>fields[k]\<close>: the zero value (a nil slice) for a key that is absent.\<close>

definition index :: "(byte \<times> bytes) list \<Rightarrow> byte \<Rightarrow> bytes" where
  "index fs k = (case map_of fs k of None \<Rightarrow> [] | Some v \<Rightarrow> v)"

subsection \<open>The encoder\<close>

text \<open>The first loop (lines 42-58): one descriptor entry per key, the offset running.\<close>

fun write_descriptors ::
  "writer \<Rightarrow> (byte \<times> bytes) list \<Rightarrow> byte list \<Rightarrow> bytes \<Rightarrow> uint16 \<Rightarrow> (bytes \<times> uint16) res" where
  "write_descriptors wr fs [] w offset = Ok (w, offset)"
| "write_descriptors wr fs (k # keys) w offset =
     (case WriteByte wr w k of
        (w1, Some err) \<Rightarrow> ReturnErr err
      | (w1, None) \<Rightarrow>
         (case binary_Write wr w1 offset of
            (w2, Some err) \<Rightarrow> ReturnErr err
          | (w2, None) \<Rightarrow>
             (let v = index fs k;
                  sz = (of_nat (length v) :: uint16)
              in case binary_Write wr w2 sz of
                   (w3, Some err) \<Rightarrow> ReturnErr err
                 | (w3, None) \<Rightarrow> write_descriptors wr fs keys w3 (offset + sz))))"

text \<open>The second loop (lines 66-75): the values, each checked for a short write.\<close>

definition whole_value_error :: error where
  "whole_value_error = Err (''write method didn'' @ [CHR 0x27] @ ''t write the whole value'')"

fun write_values :: "writer \<Rightarrow> (byte \<times> bytes) list \<Rightarrow> byte list \<Rightarrow> bytes \<Rightarrow> bytes res" where
  "write_values wr fs [] w = Ok w"
| "write_values wr fs (k # keys) w =
     (let v = index fs k
      in case Write wr w v of
           (w1, written, Some err) \<Rightarrow> ReturnErr err
         | (w1, written, None) \<Rightarrow>
             if written \<noteq> int (length v) then ReturnErr whole_value_error
             else write_values wr fs keys w1)"

text \<open>
  Lines 17-79: the header, the sorted keys, the two loops with the terminator between them,
  and the length patched into bytes 2 and 3. \<open>fs\<close> is the map in iteration order.
\<close>

definition assemble :: "writer \<Rightarrow> byte \<Rightarrow> (byte \<times> bytes) list \<Rightarrow> bytes res" where
  "assemble wr PacketTypePreLogin fs =
     (let w = [PacketTypePreLogin, 0x1, 0, 0, 0, 0, 0, 0];
          offset = (of_nat (5 * length fs + 1) :: uint16);
          keys = sort (map fst fs)
      in case write_descriptors wr fs keys w offset of
           ReturnErr err \<Rightarrow> ReturnErr err
         | Panic \<Rightarrow> Panic
         | Ok (w1, offset') \<Rightarrow>
            (case WriteByte wr w1 preloginTERMINATOR of
               (w2, Some err) \<Rightarrow> ReturnErr err
             | (w2, None) \<Rightarrow>
                (case write_values wr fs keys w2 of
                   ReturnErr err \<Rightarrow> ReturnErr err
                 | Panic \<Rightarrow> Panic
                 | Ok pktBytes \<Rightarrow> PutUint16 pktBytes 2 (of_nat (length pktBytes)))))"

text \<open>
  Lines 83-89: the packet goes to the connection in one call. The first component of the
  result lists the arguments of the calls to \<open>conn.Write\<close>, the second is what the function
  returns (\<open>Ok ()\<close> for \<open>nil\<close>).
\<close>

definition WritePrelogin_on ::
  "writer \<Rightarrow> byte \<Rightarrow> (byte \<times> bytes) list \<Rightarrow> (bytes \<Rightarrow> int \<times> error option) \<Rightarrow> bytes list \<times> unit res" where
  "WritePrelogin_on wr PacketTypePreLogin fs conn_Write =
     (case assemble wr PacketTypePreLogin fs of
        ReturnErr err \<Rightarrow> ([], ReturnErr err)
      | Panic \<Rightarrow> ([], Panic)
      | Ok pktBytes \<Rightarrow>
         (case conn_Write pktBytes of
            (n, Some err) \<Rightarrow> ([pktBytes], ReturnErr (TraceWrap err))
          | (n, None) \<Rightarrow> ([pktBytes], Ok ())))"

text \<open>The function of the source: the buffer is a \<open>bytes.Buffer\<close>, the map is \<open>fields\<close>.\<close>

definition WritePrelogin ::
  "byte \<Rightarrow> (bytes \<Rightarrow> int \<times> error option) \<Rightarrow> bytes list \<times> unit res" where
  "WritePrelogin PacketTypePreLogin conn_Write =
     WritePrelogin_on bytes_Buffer PacketTypePreLogin fields conn_Write"

subsection \<open>Reading a packet by the wire format\<close>

text \<open>
  The layout of a packet: an 8-byte header whose bytes 2 and 3 are the length, then 5-byte
  descriptor entries (kind, offset, length; the two 16-bit fields big-endian) from byte 8 on.
\<close>

definition be16 :: "byte \<Rightarrow> byte \<Rightarrow> uint16" where
  "be16 hi lo = word_cat hi lo"

definition header_length :: "bytes \<Rightarrow> uint16 option" where
  "header_length pkt = (case take 2 (drop 2 pkt) of [a, b] \<Rightarrow> Some (be16 a b) | _ \<Rightarrow> None)"

definition descriptor_at :: "bytes \<Rightarrow> nat \<Rightarrow> (byte \<times> uint16 \<times> uint16) option" where
  "descriptor_at pkt i =
     (case take 5 (drop (8 + 5 * i) pkt) of
        [k, a, b, c, d] \<Rightarrow> Some (k, be16 a b, be16 c d)
      | _ \<Rightarrow> None)"

text \<open>The kind fields of the first \<open>n\<close> descriptor entries.\<close>

definition kinds_in :: "bytes \<Rightarrow> nat \<Rightarrow> byte option list" where
  "kinds_in pkt n = map (\<lambda>i. map_option fst (descriptor_at pkt i)) [0..<n]"

text \<open>All bytes a run handed to the connection, and a connection whose write succeeds.\<close>

definition transmitted :: "bytes list \<times> unit res \<Rightarrow> bytes" where
  "transmitted run = concat (fst run)"

definition conn_ok :: "bytes \<Rightarrow> int \<times> error option" where
  "conn_ok p = (int (length p), None)"

subsection \<open>The packet in closed form\<close>

text \<open>
  What the two loops append when the buffer is a \<open>bytes.Buffer\<close>: the descriptor entries
  with their running offsets, and from them the whole packet. Lemma \<open>assemble_Buffer\<close>
  below shows that \<open>assemble\<close> computes exactly \<open>packet\<close>.
\<close>

fun descriptors ::
  "(byte \<times> bytes) list \<Rightarrow> byte list \<Rightarrow> uint16 \<Rightarrow> (byte \<times> uint16 \<times> uint16) list" where
  "descriptors fs [] offset = []"
| "descriptors fs (k # keys) offset =
     (k, offset, of_nat (length (index fs k))) #
     descriptors fs keys (offset + of_nat (length (index fs k)))"

definition entry_bytes :: "byte \<times> uint16 \<times> uint16 \<Rightarrow> bytes" where
  "entry_bytes e = (case e of (k, off, len) \<Rightarrow> k # BigEndian_bytes off @ BigEndian_bytes len)"

definition sorted_keys :: "(byte \<times> bytes) list \<Rightarrow> byte list" where
  "sorted_keys fs = sort (map fst fs)"

definition table_of :: "(byte \<times> bytes) list \<Rightarrow> (byte \<times> uint16 \<times> uint16) list" where
  "table_of fs = descriptors fs (sorted_keys fs) (of_nat (5 * length fs + 1))"

definition body :: "byte \<Rightarrow> (byte \<times> bytes) list \<Rightarrow> bytes" where
  "body pt fs = [pt, 1, 0, 0, 0, 0, 0, 0] @ concat (map entry_bytes (table_of fs)) @
     [preloginTERMINATOR] @ concat (map (index fs) (sorted_keys fs))"

definition packet :: "byte \<Rightarrow> (byte \<times> bytes) list \<Rightarrow> bytes" where
  "packet pt fs = (body pt fs)
     [2 := ucast (drop_bit 8 (of_nat (length (body pt fs)) :: uint16)),
      3 := ucast (of_nat (length (body pt fs)) :: uint16)]"

subsection \<open>A decoder\<close>

text \<open>
  Modelled from the spec: the repository's reader of PreLogin packets is not in prelogin.go.
  The decoder inverts the layout: after the 8-byte header it reads 5-byte descriptor entries
  up to the terminator 0xFF, then takes each value from the \<open>length\<close> bytes at its
  \<open>offset\<close>. A table without terminator, a truncated entry and a value outside the packet
  make the decoder fail. The spec names two places from which the offset counts:
  \<^item> the start of the packet (section 3 and the table of section 6): \<open>decode_absolute\<close>;
  \<^item> the start of the descriptor table, byte 8 of the packet (section 4.1, step 3):
    \<open>decode\<close>.
\<close>

fun read_table :: "bytes \<Rightarrow> (byte \<times> uint16 \<times> uint16) list option" where
  "read_table [] = None"
| "read_table (k # rest) =
     (if k = preloginTERMINATOR then Some []
      else case rest of
             a # b # c # d # rest' \<Rightarrow> map_option ((#) (k, be16 a b, be16 c d)) (read_table rest')
           | _ \<Rightarrow> None)"

definition in_range :: "bytes \<Rightarrow> byte \<times> uint16 \<times> uint16 \<Rightarrow> bool" where
  "in_range payload e = (case e of (k, off, len) \<Rightarrow> unat off + unat len \<le> length payload)"

definition value_of :: "bytes \<Rightarrow> byte \<times> uint16 \<times> uint16 \<Rightarrow> byte \<times> bytes" where
  "value_of payload e = (case e of (k, off, len) \<Rightarrow> (k, take (unat len) (drop (unat off) payload)))"

definition decode :: "bytes \<Rightarrow> (byte \<rightharpoonup> bytes) option" where
  "decode pkt =
     (if length pkt < 8 then None
      else case read_table (drop 8 pkt) of
             None \<Rightarrow> None
           | Some tab \<Rightarrow>
               if list_all (in_range (drop 8 pkt)) tab
               then Some (map_of (map (value_of (drop 8 pkt)) tab))
               else None)"

definition decode_absolute :: "bytes \<Rightarrow> (byte \<rightharpoonup> bytes) option" where
  "decode_absolute pkt =
     (if length pkt < 8 then None
      else case read_table (drop 8 pkt) of
             None \<Rightarrow> None
           | Some tab \<Rightarrow>
               if list_all (in_range pkt) tab
               then Some (map_of (map (value_of pkt) tab))
               else None)"

definition lookup_decoded :: "(byte \<rightharpoonup> bytes) option \<Rightarrow> byte \<Rightarrow> bytes option" where
  "lookup_decoded d k = (case d of None \<Rightarrow> None | Some m \<Rightarrow> m k)"

subsection \<open>Inputs for the examples\<close>

text \<open>
  A writer whose \<open>Write\<close> takes at most 4 bytes of what it is given and reports so, and
  a connection whose \<open>Write\<close> fails.
\<close>

definition truncating_Write :: "bytes \<Rightarrow> bytes \<Rightarrow> bytes \<times> int \<times> error option" where
  "truncating_Write b p = (b @ take 4 p, int (min 4 (length p)), None)"

definition truncating_writer :: writer where
  "truncating_writer = \<lparr>WriteByte = Buffer_WriteByte, Write = truncating_Write\<rparr>"

definition conn_closed :: "bytes \<Rightarrow> int \<times> error option" where
  "conn_closed p = (0, Some (Err ''use of closed network connection''))"

section \<open>Lemmas\<close>

lemma be16_BigEndian: "be16 (ucast (drop_bit 8 v)) (ucast v) = (v::uint16)"
  unfolding be16_def
  apply (rule bit_word_eqI)
  apply (auto simp add: bit_simps)
  done

lemma write_descriptors_Buffer:
  "write_descriptors bytes_Buffer fs keys w offset =
     Ok (w @ concat (map entry_bytes (descriptors fs keys offset)),
         offset + of_nat (sum_list (map (\<lambda>k. length (index fs k)) keys)))"
  by (induction keys arbitrary: w offset)
     (simp_all add: bytes_Buffer_def Buffer_WriteByte_def Buffer_Write_def binary_Write_def
        entry_bytes_def Let_def add.assoc)

lemma write_values_Buffer:
  "write_values bytes_Buffer fs keys w = Ok (w @ concat (map (index fs) keys))"
  by (induction keys arbitrary: w)
     (simp_all add: bytes_Buffer_def Buffer_Write_def Let_def)

lemma assemble_Buffer: "assemble bytes_Buffer pt fs = Ok (packet pt fs)"
proof -
  have wb: "WriteByte bytes_Buffer = Buffer_WriteByte"
    by (simp add: bytes_Buffer_def)
  show ?thesis
    by (simp add: assemble_def write_descriptors_Buffer write_values_Buffer packet_def body_def
        table_of_def sorted_keys_def wb Buffer_WriteByte_def PutUint16_def Let_def add.assoc)
qed

lemma length_packet: "length (packet pt fs) = length (body pt fs)"
  by (simp add: packet_def)

lemma drop8_packet:
  "drop 8 (packet pt fs) = concat (map entry_bytes (table_of fs)) @
     preloginTERMINATOR # concat (map (index fs) (sorted_keys fs))"
  by (simp add: packet_def body_def)

lemma length_entry_bytes: "length (entry_bytes e) = 5"
  by (cases e) (simp add: entry_bytes_def BigEndian_bytes_def)

lemma length_entries: "length (concat (map entry_bytes ds)) = 5 * length ds"
  by (induction ds) (simp_all add: length_entry_bytes)

lemma length_descriptors: "length (descriptors fs keys offset) = length keys"
  by (induction keys arbitrary: offset) simp_all

lemma length_table_of: "length (table_of fs) = length fs"
  by (simp add: table_of_def length_descriptors sorted_keys_def)

lemma drop_entries:
  "i \<le> length ds \<Longrightarrow>
     drop (5 * i) (concat (map entry_bytes ds) @ rest) = concat (map entry_bytes (drop i ds)) @ rest"
proof (induction ds arbitrary: i)
  case Nil
  then show ?case by simp
next
  case (Cons d ds)
  show ?case
  proof (cases i)
    case 0
    then show ?thesis by simp
  next
    case (Suc j)
    with Cons.prems have "j \<le> length ds" by simp
    from Cons.IH [OF this] Suc show ?thesis
      by (simp add: length_entry_bytes)
  qed
qed

lemma drop_values:
  "drop (sum_list (map (\<lambda>k. length (f k)) (take i ks))) (concat (map f ks)) = concat (map f (drop i ks))"
proof (induction ks arbitrary: i)
  case Nil
  then show ?case by simp
next
  case (Cons k ks)
  show ?case
  proof (cases i)
    case 0
    then show ?thesis by simp
  next
    case (Suc j)
    with Cons.IH [of j] show ?thesis by simp
  qed
qed

lemma descriptors_nth:
  "i < length keys \<Longrightarrow>
     descriptors fs keys offset ! i =
       (keys ! i,
        offset + of_nat (sum_list (map (\<lambda>k. length (index fs k)) (take i keys))),
        of_nat (length (index fs (keys ! i))))"
proof (induction keys arbitrary: i offset)
  case Nil
  then show ?case by simp
next
  case (Cons k keys)
  show ?case
  proof (cases i)
    case 0
    then show ?thesis by simp
  next
    case (Suc j)
    with Cons.prems have "j < length keys" by simp
    from Cons.IH [OF this] Suc show ?thesis
      by (simp add: add.assoc)
  qed
qed

lemma descriptor_at_packet:
  assumes "i < length fs"
  shows "descriptor_at (packet pt fs) i = Some (table_of fs ! i)"
proof -
  let ?rest = "preloginTERMINATOR # concat (map (index fs) (sorted_keys fs))"
  from assms have i: "i < length (table_of fs)" by (simp add: length_table_of)
  have "drop (8 + 5 * i) (packet pt fs) = drop (5 * i) (drop 8 (packet pt fs))"
    by (simp add: add.commute)
  also have "\<dots> = concat (map entry_bytes (drop i (table_of fs))) @ ?rest"
    using i drop_entries [of i "table_of fs" ?rest] by (simp only: drop8_packet less_imp_le)
  also have "drop i (table_of fs) = (table_of fs ! i) # drop (Suc i) (table_of fs)"
    using i by (simp add: Cons_nth_drop_Suc)
  finally have "take 5 (drop (8 + 5 * i) (packet pt fs)) = entry_bytes (table_of fs ! i)"
    by (simp add: length_entry_bytes)
  then show ?thesis
    by (cases "table_of fs ! i")
       (simp add: descriptor_at_def entry_bytes_def BigEndian_bytes_def be16_BigEndian)
qed

lemma header_length_packet:
  "header_length (packet pt fs) = Some (of_nat (length (packet pt fs)))"
  by (simp add: header_length_def packet_def body_def be16_BigEndian numeral_2_eq_2 numeral_3_eq_3)

lemma index_entry: "distinct (map fst fs) \<Longrightarrow> (k, v) \<in> set fs \<Longrightarrow> index fs k = v"
  by (simp add: index_def)

lemma index_values: "distinct (map fst fs) \<Longrightarrow> map (\<lambda>kv. g (index fs (fst kv))) fs = map (\<lambda>kv. g (snd kv)) fs"
  by (rule map_cong [OF refl]) (auto simp: index_entry)

lemma sum_sorted_filter:
  "sum_list (map g (filter P (sort ks))) = sum_list (map (g::byte \<Rightarrow> nat) (filter P ks))"
proof -
  have "mset (map g (filter P (sort ks))) = mset (map g (filter P ks))"
    by simp
  then show ?thesis
    by (metis sum_mset_sum_list)
qed

lemma sum_smaller_kinds:
  assumes "distinct (map fst fs)"
  shows "sum_list (map (\<lambda>k. length (index fs k)) (filter P (sort (map fst fs)))) =
         sum_list (map (length \<circ> snd) (filter (P \<circ> fst) fs))"
proof -
  have "sum_list (map (\<lambda>k. length (index fs k)) (filter P (sort (map fst fs)))) =
        sum_list (map (\<lambda>k. length (index fs k)) (filter P (map fst fs)))"
    by (rule sum_sorted_filter)
  also have "\<dots> = sum_list (map (\<lambda>kv. length (index fs (fst kv))) (filter (P \<circ> fst) fs))"
    by (simp add: filter_map comp_def)
  also have "\<dots> = sum_list (map (length \<circ> snd) (filter (P \<circ> fst) fs))"
  proof -
    have "map (\<lambda>kv. length (index fs (fst kv))) (filter (P \<circ> fst) fs) =
          map (length \<circ> snd) (filter (P \<circ> fst) fs)"
      by (rule map_cong [OF refl]) (auto simp: index_entry [OF assms])
    then show ?thesis by (rule arg_cong)
  qed
  finally show ?thesis .
qed

lemma sum_all_kinds:
  assumes "distinct (map fst fs)"
  shows "sum_list (map (\<lambda>k. length (index fs k)) (sort (map fst fs))) =
         sum_list (map (length \<circ> snd) fs)"
  using sum_smaller_kinds [OF assms, of "\<lambda>_. True"] by simp

lemma take_sorted_filter:
  assumes "sorted_wrt (<) ks" and "i < length ks"
  shows "filter (\<lambda>k. k < ks ! i) ks = take i (ks :: byte list)"
proof -
  have lo: "\<forall>k \<in> set (take i ks). k < ks ! i"
  proof
    fix k assume "k \<in> set (take i ks)"
    then obtain j where "j < i" "j < length ks" "k = ks ! j"
      using assms(2) by (auto simp: in_set_conv_nth)
    with assms show "k < ks ! i"
      by (simp add: sorted_wrt_nth_less)
  qed
  have hi: "\<forall>k \<in> set (drop i ks). \<not> k < ks ! i"
  proof
    fix k assume "k \<in> set (drop i ks)"
    then obtain j where j: "j < length ks - i" "k = ks ! (i + j)"
      by (auto simp: in_set_conv_nth)
    show "\<not> k < ks ! i"
    proof (cases j)
      case 0
      with j show ?thesis by simp
    next
      case (Suc m)
      with j assms have "ks ! i < ks ! (i + j)"
        using sorted_wrt_nth_less [of "(<)" ks i "i + j"] by simp
      with j show ?thesis by simp
    qed
  qed
  have "filter (\<lambda>k. k < ks ! i) ks =
        filter (\<lambda>k. k < ks ! i) (take i ks) @ filter (\<lambda>k. k < ks ! i) (drop i ks)"
    by (metis append_take_drop_id filter_append)
  also have "filter (\<lambda>k. k < ks ! i) (take i ks) = take i ks"
    using lo by (simp add: filter_id_conv)
  also have "filter (\<lambda>k. k < ks ! i) (drop i ks) = []"
    using hi by (simp add: filter_empty_conv)
  finally show ?thesis by simp
qed

lemma strict_sorted_keys: "distinct (map fst fs) \<Longrightarrow> sorted_wrt (<) (sort (map fst fs))"
  by (simp add: strict_sorted_iff)

lemma sum_take_le: "sum_list (map f (take i xs)) \<le> sum_list (map (f :: 'a \<Rightarrow> nat) xs)"
proof -
  have "sum_list (map f xs) = sum_list (map f (take i xs)) + sum_list (map f (drop i xs))"
    by (metis append_take_drop_id map_append sum_list_append)
  then show ?thesis by simp
qed

lemma length_body:
  "length (body pt fs) = 8 + 5 * length fs + 1 + sum_list (map (\<lambda>k. length (index fs k)) (sort (map fst fs)))"
  by (simp add: body_def length_entries length_table_of sorted_keys_def)
     (simp add: length_concat comp_def)

lemma unat_fits: "n < 65536 \<Longrightarrow> unat (of_nat n :: uint16) = n"
  by (simp add: unat_of_nat)

lemma table_of_nth:
  assumes "i < length fs"
  shows "table_of fs ! i =
     (sort (map fst fs) ! i,
      of_nat (5 * length fs + 1 + sum_list (map (\<lambda>k. length (index fs k)) (take i (sort (map fst fs))))),
      of_nat (length (index fs (sort (map fst fs) ! i))))"
  using assms by (simp add: table_of_def sorted_keys_def descriptors_nth)

lemma payload_bound:
  assumes "distinct (map fst fs)"
    and "5 * length fs + 1 + sum_list (map (length \<circ> snd) fs) < 65536"
  shows "5 * length fs + 1 + sum_list (map (\<lambda>k. length (index fs k)) (take i (sort (map fst fs)))) < 65536"
proof -
  have "sum_list (map (\<lambda>k. length (index fs k)) (take i (sort (map fst fs)))) \<le>
        sum_list (map (length \<circ> snd) fs)"
    using sum_take_le [of "\<lambda>k. length (index fs k)" i "sort (map fst fs)"]
    by (simp only: sum_all_kinds [OF assms(1)])
  with assms(2) show ?thesis by simp
qed

lemma value_bound:
  assumes "distinct (map fst fs)"
    and "5 * length fs + 1 + sum_list (map (length \<circ> snd) fs) < 65536"
    and "i < length fs"
  shows "length (index fs (sort (map fst fs) ! i)) < 65536"
proof -
  let ?ks = "sort (map fst fs)"
  from assms(3) have "?ks ! i \<in> set ?ks"
    by (metis length_map length_sort nth_mem)
  then have "length (index fs (?ks ! i)) \<le> sum_list (map (\<lambda>k. length (index fs k)) ?ks)"
    by (simp add: member_le_sum_list)
  with assms(2) show ?thesis
    by (simp add: sum_all_kinds [OF assms(1)])
qed

lemma value_at:
  assumes "i < length fs"
  shows "take (length (index fs (sort (map fst fs) ! i)))
           (drop (8 + (5 * length fs + 1 +
                  sum_list (map (\<lambda>k. length (index fs k)) (take i (sort (map fst fs))))))
              (packet pt fs)) =
         index fs (sort (map fst fs) ! i)"
proof -
  let ?ks = "sort (map fst fs)"
  let ?s = "sum_list (map (\<lambda>k. length (index fs k)) (take i ?ks))"
  let ?E = "concat (map entry_bytes (table_of fs))"
  let ?V = "concat (map (index fs) ?ks)"
  have "drop (8 + (5 * length fs + 1 + ?s)) (packet pt fs) =
        drop (5 * length fs + 1 + ?s) (drop 8 (packet pt fs))"
    by (simp add: add.commute)
  also have "\<dots> = drop (5 * length fs + 1 + ?s) ((?E @ [preloginTERMINATOR]) @ ?V)"
    by (simp add: drop8_packet sorted_keys_def)
  also have "\<dots> = drop ?s ?V"
    by (simp add: length_entries length_table_of)
  also have "\<dots> = concat (map (index fs) (drop i ?ks))"
    by (rule drop_values)
  also have "drop i ?ks = (?ks ! i) # drop (Suc i) ?ks"
    using assms by (simp add: Cons_nth_drop_Suc)
  finally show ?thesis by simp
qed

lemmas const_defs = preloginVERSION_def preloginENCRYPTION_def preloginINSTOPT_def
  preloginTHREADID_def preloginMARS_def preloginTERMINATOR_def encryptNotSup_def

lemma fields_distinct: "distinct (map fst fields)"
  by (simp add: fields_def const_defs)

lemma fields_sorted: "sort (map fst fields) = [0, 1, 2, 3, 4]"
  by (simp add: fields_def const_defs)

lemma length_fields: "length fields = 5"
  by (simp add: fields_def)

lemma fields_size: "5 * length fields + 1 + sum_list (map (length \<circ> snd) fields) = 47"
  by (simp add: fields_def)

lemma index_fields:
  "index fields 0 = [0, 0, 0, 0, 0, 0]"
  "index fields 1 = [2]"
  "index fields 2 = [0x74, 0x65, 0x6c, 0x65, 0x70, 0x6f, 0x72, 0x74, 0]"
  "index fields 3 = [0, 0, 0, 0]"
  "index fields 4 = [0]"
  by (simp_all add: index_def fields_def const_defs)

lemma table_of_fields:
  "table_of fields = [(0, 26, 6), (1, 32, 1), (2, 33, 9), (3, 42, 4), (4, 46, 1)]"
  by (simp add: table_of_def sorted_keys_def fields_sorted index_fields)
     (simp add: fields_def)

lemma BigEndian_small: "BigEndian_bytes 26 = [0, 26]" "BigEndian_bytes 32 = [0, 32]"
  "BigEndian_bytes 33 = [0, 33]" "BigEndian_bytes 42 = [0, 42]" "BigEndian_bytes 46 = [0, 46]"
  "BigEndian_bytes 6 = [0, 6]" "BigEndian_bytes 1 = [0, 1]" "BigEndian_bytes 9 = [0, 9]"
  "BigEndian_bytes 4 = [0, 4]" "BigEndian_bytes 55 = [0, 55]"
  by (simp_all add: BigEndian_bytes_def drop_bit_eq_div)

lemma body_fields:
  "body pt fields =
     [pt, 1, 0, 0, 0, 0, 0, 0,
      0, 0, 26, 0, 6,  1, 0, 32, 0, 1,  2, 0, 33, 0, 9,  3, 0, 42, 0, 4,  4, 0, 46, 0, 1,
      0xFF,
      0, 0, 0, 0, 0, 0,  2,  0x74, 0x65, 0x6c, 0x65, 0x70, 0x6f, 0x72, 0x74, 0,  0, 0, 0, 0,  0]"
  by (simp add: body_def table_of_fields sorted_keys_def fields_sorted index_fields
      entry_bytes_def BigEndian_small preloginTERMINATOR_def)

lemma packet_fields:
  "packet pt fields =
     [pt, 1, 0, 55, 0, 0, 0, 0,
      0, 0, 26, 0, 6,  1, 0, 32, 0, 1,  2, 0, 33, 0, 9,  3, 0, 42, 0, 4,  4, 0, 46, 0, 1,
      0xFF,
      0, 0, 0, 0, 0, 0,  2,  0x74, 0x65, 0x6c, 0x65, 0x70, 0x6f, 0x72, 0x74, 0,  0, 0, 0, 0,  0]"
proof -
  have l: "length (body pt fields) = 55"
    by (simp add: body_fields)
  have b: "ucast (drop_bit 8 (55 :: uint16)) = (0 :: byte)" "ucast (55 :: uint16) = (55 :: byte)"
    by (simp_all add: drop_bit_eq_div)
  have u: "(x0 # x1 # x2 # x3 # xs)[2 := a, 3 := b] = x0 # x1 # a # b # xs" for x0 x1 x2 x3 a b :: byte and xs
    by (simp add: numeral_2_eq_2 numeral_3_eq_3)
  show ?thesis
    unfolding packet_def l by (simp only: body_fields of_nat_numeral b u)
qed

lemma WritePrelogin_ok: "WritePrelogin pt conn_ok = ([packet pt fields], Ok ())"
  by (simp add: WritePrelogin_def WritePrelogin_on_def assemble_Buffer conn_ok_def)

lemma descriptor_at_fields:
  "descriptor_at (packet pt fields) 0 = Some (0, 26, 6)"
  "descriptor_at (packet pt fields) 2 = Some (2, 33, 9)"
  by (simp_all add: descriptor_at_packet table_of_fields length_fields)

lemma write_descriptors_index:
  "(\<And>k. index fs k = index fs' k) \<Longrightarrow>
     write_descriptors wr fs keys w offset = write_descriptors wr fs' keys w offset"
  by (induction keys arbitrary: w offset) (simp_all split: prod.splits option.splits)

lemma write_values_index:
  "(\<And>k. index fs k = index fs' k) \<Longrightarrow> write_values wr fs keys w = write_values wr fs' keys w"
  by (induction keys arbitrary: w) (simp_all add: Let_def split: prod.splits option.splits)

lemma same_map_same_keys:
  assumes "distinct (map fst fs)" and "distinct (map fst fs')" and "map_of fs = map_of fs'"
  shows "sort (map fst fs) = sort (map fst fs')" and "length fs = length fs'"
proof -
  have "set (map fst fs) = set (map fst fs')"
    using assms(3) by (metis dom_map_of_conv_image_fst set_map)
  with assms(1,2) show s: "sort (map fst fs) = sort (map fst fs')"
    by (intro sorted_distinct_set_unique) simp_all
  then have "length (sort (map fst fs)) = length (sort (map fst fs'))"
    by simp
  then show "length fs = length fs'"
    by simp
qed

lemma write_values_append:
  "write_values wr fs (before @ rest) w =
     (case write_values wr fs before w of
        Ok w1 \<Rightarrow> write_values wr fs rest w1
      | ReturnErr err \<Rightarrow> ReturnErr err
      | Panic \<Rightarrow> Panic)"
  by (induction before arbitrary: w) (simp_all add: Let_def split: prod.splits option.splits)

lemma truncating_descriptors:
  "write_descriptors truncating_writer fs keys w offset =
     write_descriptors bytes_Buffer fs keys w offset"
  by (induction keys arbitrary: w offset)
     (simp_all add: truncating_writer_def bytes_Buffer_def binary_Write_def truncating_Write_def
        Buffer_Write_def BigEndian_bytes_def Let_def)

lemma read_table_entries:
  "\<forall>e \<in> set ds. fst e \<noteq> preloginTERMINATOR \<Longrightarrow>
     read_table (concat (map entry_bytes ds) @ preloginTERMINATOR # rest) = Some ds"
proof (induction ds)
  case Nil
  then show ?case by simp
next
  case (Cons d ds)
  then show ?case
    by (cases d) (simp add: entry_bytes_def BigEndian_bytes_def be16_BigEndian)
qed

lemma kinds_table_of: "map fst (table_of fs) = sort (map fst fs)"
  by (rule nth_equalityI) (simp_all add: length_table_of table_of_nth)

lemma map_of_sorted_keys:
  assumes "distinct (map fst fs)"
  shows "map_of (map (\<lambda>k. (k, index fs k)) (sort (map fst fs))) = map_of fs"
proof
  fix k
  show "map_of (map (\<lambda>k. (k, index fs k)) (sort (map fst fs))) k = map_of fs k"
  proof (cases "map_of fs k")
    case None
    then have "k \<notin> set (sort (map fst fs))"
      by (simp add: map_of_eq_None_iff)
    then have "map_of (map (\<lambda>k. (k, index fs k)) (sort (map fst fs))) k = None"
      by (simp add: map_of_eq_None_iff image_image)
    with None show ?thesis by simp
  next
    case (Some v)
    then have "k \<in> set (sort (map fst fs))"
      by (metis map_of_eq_None_iff option.distinct(1) set_map set_sort)
    moreover have "index fs k = v"
      using Some by (simp add: index_def)
    ultimately have "map_of (map (\<lambda>k. (k, index fs k)) (sort (map fst fs))) k = Some v"
      by (simp add: map_of_map_restrict)
    with Some show ?thesis by simp
  qed
qed

lemma sum_take_Suc_le:
  assumes "i < length xs"
  shows "sum_list (map f (take i xs)) + f (xs ! i) \<le> sum_list (map (f :: 'a \<Rightarrow> nat) xs)"
proof -
  have "sum_list (map f (take (Suc i) xs)) = sum_list (map f (take i xs)) + f (xs ! i)"
    using assms by (simp add: take_Suc_conv_app_nth)
  with sum_take_le [of f "Suc i" xs] show ?thesis by simp
qed

lemma table_kinds_not_terminator:
  assumes "preloginTERMINATOR \<notin> fst ` set fs"
  shows "\<forall>e \<in> set (table_of fs). fst e \<noteq> preloginTERMINATOR"
proof
  fix e assume "e \<in> set (table_of fs)"
  then have "fst e \<in> set (map fst (table_of fs))"
    by simp
  then have k: "fst e \<in> fst ` set fs"
    unfolding kinds_table_of by simp
  show "fst e \<noteq> preloginTERMINATOR"
  proof
    assume "fst e = preloginTERMINATOR"
    with k have "preloginTERMINATOR \<in> fst ` set fs" by simp
    with assms show False by simp
  qed
qed

lemma read_table_packet:
  assumes "preloginTERMINATOR \<notin> fst ` set fs"
  shows "read_table (drop 8 (packet pt fs)) = Some (table_of fs)"
  unfolding drop8_packet
  by (rule read_table_entries) (rule table_kinds_not_terminator [OF assms])

lemma truncating_values:
  "write_values truncating_writer fields (sort (map fst fields)) w = ReturnErr whole_value_error"
  by (simp add: fields_sorted index_fields truncating_writer_def truncating_Write_def Let_def)

lemma truncating_table:
  "write_descriptors truncating_writer fields (sort (map fst fields)) [pt, 1, 0, 0, 0, 0, 0, 0]
      (of_nat (5 * length fields + 1)) =
     Ok ([pt, 1, 0, 0, 0, 0, 0, 0] @ concat (map entry_bytes (table_of fields)), 47)"
  unfolding truncating_descriptors write_descriptors_Buffer
  by (simp add: table_of_def sorted_keys_def fields_sorted index_fields length_fields)

lemma truncating_assemble: "assemble truncating_writer pt fields = ReturnErr whole_value_error"
proof -
  have wb: "WriteByte truncating_writer = Buffer_WriteByte"
    by (simp add: truncating_writer_def)
  show ?thesis
    unfolding assemble_def Let_def truncating_table
    by (simp add: wb Buffer_WriteByte_def truncating_values)
qed

lemma fields_no_terminator: "preloginTERMINATOR \<notin> fst ` set fields"
  by (simp add: fields_def const_defs)

lemma offset_fits:
  assumes "distinct (map fst fs)"
    and "\<forall>kv \<in> set fs. 5 * length fs + 1 +
           sum_list (map (length \<circ> snd) (filter (\<lambda>kv'. fst kv' < fst kv) fs)) \<le> 65535"
    and "i < length fs"
  shows "5 * length fs + 1 +
           sum_list (map (\<lambda>k. length (index fs k)) (take i (sort (map fst fs)))) < 65536"
proof -
  let ?ks = "sort (map fst fs)"
  from assms(3) have "?ks ! i \<in> set ?ks"
    by (metis length_map length_sort nth_mem)
  then obtain kv where kv: "kv \<in> set fs" "fst kv = ?ks ! i"
    by auto
  have "take i ?ks = filter (\<lambda>k. k < ?ks ! i) ?ks"
    using assms(1,3) by (simp add: take_sorted_filter strict_sorted_keys)
  then have "sum_list (map (\<lambda>k. length (index fs k)) (take i ?ks)) =
      sum_list (map (length \<circ> snd) (filter (\<lambda>kv'. fst kv' < ?ks ! i) fs))"
    using sum_smaller_kinds [OF assms(1), of "\<lambda>k. k < ?ks ! i"] by (simp add: comp_def)
  moreover from assms(2) kv have "5 * length fs + 1 +
      sum_list (map (length \<circ> snd) (filter (\<lambda>kv'. fst kv' < ?ks ! i) fs)) \<le> 65535"
    by metis
  ultimately show ?thesis
    by simp
qed

lemma length_fits:
  assumes "distinct (map fst fs)"
    and "\<forall>kv \<in> set fs. length (snd kv) \<le> 65535"
    and "i < length fs"
  shows "length (index fs (sort (map fst fs) ! i)) < 65536"
proof -
  let ?ks = "sort (map fst fs)"
  from assms(3) have "?ks ! i \<in> set ?ks"
    by (metis length_map length_sort nth_mem)
  then obtain k v where kv: "(k, v) \<in> set fs" "k = ?ks ! i"
    by auto
  with assms(1) have "index fs (?ks ! i) = v"
    by (simp add: index_entry)
  moreover from assms(2) kv(1) have "length v \<le> 65535"
    by fastforce
  ultimately show ?thesis
    by simp
qed

lemma table_entry_decodes:
  assumes "i < length fs"
    and "5 * length fs + 1 +
           sum_list (map (\<lambda>k. length (index fs k)) (take i (sort (map fst fs)))) < 65536"
    and "length (index fs (sort (map fst fs) ! i)) < 65536"
  shows "in_range (drop 8 (packet pt fs)) (table_of fs ! i)"
    and "value_of (drop 8 (packet pt fs)) (table_of fs ! i) =
           (sort (map fst fs) ! i, index fs (sort (map fst fs) ! i))"
proof -
  let ?ks = "sort (map fst fs)"
  let ?s = "sum_list (map (\<lambda>k. length (index fs k)) (take i ?ks))"
  let ?off = "of_nat (5 * length fs + 1 + ?s) :: uint16"
  let ?len = "of_nat (length (index fs (?ks ! i))) :: uint16"
  have e: "table_of fs ! i = (?ks ! i, ?off, ?len)"
    by (rule table_of_nth [OF assms(1)])
  have off: "unat ?off = 5 * length fs + 1 + ?s"
    by (rule unat_fits) (rule assms(2))
  have len: "unat ?len = length (index fs (?ks ! i))"
    by (rule unat_fits) (rule assms(3))
  have l: "length (drop 8 (packet pt fs)) =
      5 * length fs + 1 + sum_list (map (\<lambda>k. length (index fs k)) ?ks)"
    by (simp add: length_packet length_body)
  have "?s + length (index fs (?ks ! i)) \<le> sum_list (map (\<lambda>k. length (index fs k)) ?ks)"
    using assms(1) by (intro sum_take_Suc_le) simp
  then show "in_range (drop 8 (packet pt fs)) (table_of fs ! i)"
    unfolding e in_range_def prod.case off len l by simp
  have "take (unat ?len) (drop (unat ?off) (drop 8 (packet pt fs))) = index fs (?ks ! i)"
    unfolding off len drop_drop
    using value_at [OF assms(1), of pt] by (simp add: add.commute)
  then show "value_of (drop 8 (packet pt fs)) (table_of fs ! i) = (?ks ! i, index fs (?ks ! i))"
    unfolding e value_of_def prod.case by simp
qed

lemma table_in_range:
  assumes "distinct (map fst fs)"
    and "\<forall>kv \<in> set fs. length (snd kv) \<le> 65535"
    and "\<forall>kv \<in> set fs. 5 * length fs + 1 +
           sum_list (map (length \<circ> snd) (filter (\<lambda>kv'. fst kv' < fst kv) fs)) \<le> 65535"
  shows "list_all (in_range (drop 8 (packet pt fs))) (table_of fs)"
  unfolding list_all_length
  using table_entry_decodes(1) offset_fits [OF assms(1,3)] length_fits [OF assms(1,2)]
  by (simp add: length_table_of)

lemma table_values:
  assumes "distinct (map fst fs)"
    and "\<forall>kv \<in> set fs. length (snd kv) \<le> 65535"
    and "\<forall>kv \<in> set fs. 5 * length fs + 1 +
           sum_list (map (length \<circ> snd) (filter (\<lambda>kv'. fst kv' < fst kv) fs)) \<le> 65535"
  shows "map (value_of (drop 8 (packet pt fs))) (table_of fs) =
           map (\<lambda>k. (k, index fs k)) (sort (map fst fs))"
proof (rule nth_equalityI)
  show "length (map (value_of (drop 8 (packet pt fs))) (table_of fs)) =
      length (map (\<lambda>k. (k, index fs k)) (sort (map fst fs)))"
    by (simp add: length_table_of)
next
  fix i assume "i < length (map (value_of (drop 8 (packet pt fs))) (table_of fs))"
  then have i: "i < length fs"
    by (simp add: length_table_of)
  from table_entry_decodes(2) [OF i offset_fits [OF assms(1,3) i] length_fits [OF assms(1,2) i]] i
  show "map (value_of (drop 8 (packet pt fs))) (table_of fs) ! i =
      map (\<lambda>k. (k, index fs k)) (sort (map fst fs)) ! i"
    by (simp add: length_table_of)
qed

lemma fields_values_fit: "\<forall>kv \<in> set fields. length (snd kv) \<le> 65535"
  by (simp add: fields_def)

lemma fields_offsets_fit:
  "\<forall>kv \<in> set fields. 5 * length fields + 1 +
     sum_list (map (length \<circ> snd) (filter (\<lambda>kv'. fst kv' < fst kv) fields)) \<le> 65535"
  unfolding length_fields by (simp add: fields_def const_defs)

lemma length_packet_fields: "length (packet pt fields) = 55"
  by (simp add: packet_fields)

section \<open>The claims\<close>

text \<open>
  In the theorems below \<open>fs\<close> is any option map in iteration order, \<open>pt\<close> any packet type
  tag, and \<open>sort (map fst fs)\<close> the kinds in ascending order. The source calls the encoder
  with \<open>fields\<close> only; the witnesses instantiate the theorems there.
\<close>

subsection \<open>C1: offsets are not measured from the start of the packet\<close>

text \<open>
  C1 (as stated, it fails): the offset stored in a descriptor entry would be the byte offset
  of the value from the absolute start of the packet, the 8 header bytes included. In the
  packet that \<open>WritePrelogin\<close> sends, the entry of VERSION stores 26, while its value
  begins at byte 34 = 8 + 5 * 5 + 1 of the packet.
\<close>

theorem absolute_offset_counterexample:
  "descriptor_at (transmitted (WritePrelogin 0x12 conn_ok)) 0 = Some (preloginVERSION, 26, 6) \<and>
   unat (26 :: uint16) \<noteq> 8 + 5 * length fields + 1 + 0"
  by (simp add: WritePrelogin_ok transmitted_def descriptor_at_fields preloginVERSION_def)
     (simp add: length_fields)

text \<open>
  C1 (amended): the offset runs from the start of the descriptor table, which is byte 8 of
  the packet. When descriptor table, terminator and values together take fewer than 65536
  bytes, the offset of the option of kind \<open>k\<close> is the byte count of the descriptor table,
  the terminator and the values of all options of smaller kind (the header is not counted),
  its length field is the length of its value, and the value is found in the packet at
  byte \<open>8 + offset\<close>.
\<close>

theorem value_offset_from_table_start:
  assumes "distinct (map fst fs)" and "i < length fs"
    and "5 * length fs + 1 + sum_list (map (length \<circ> snd) fs) < 65536"
  shows "\<exists>pkt off len. assemble bytes_Buffer pt fs = Ok pkt \<and>
      descriptor_at pkt i = Some (sort (map fst fs) ! i, off, len) \<and>
      unat off = 5 * length fs + 1 +
         sum_list (map (length \<circ> snd) (filter (\<lambda>kv. fst kv < sort (map fst fs) ! i) fs)) \<and>
      unat len = length (index fs (sort (map fst fs) ! i)) \<and>
      take (unat len) (drop (8 + unat off) pkt) = index fs (sort (map fst fs) ! i)"
proof -
  let ?ks = "sort (map fst fs)"
  let ?s = "sum_list (map (\<lambda>k. length (index fs k)) (take i ?ks))"
  let ?off = "of_nat (5 * length fs + 1 + ?s) :: uint16"
  let ?len = "of_nat (length (index fs (?ks ! i))) :: uint16"
  have off: "unat ?off = 5 * length fs + 1 + ?s"
    by (rule unat_fits) (rule payload_bound [OF assms(1,3)])
  have len: "unat ?len = length (index fs (?ks ! i))"
    by (rule unat_fits) (rule value_bound [OF assms(1,3,2)])
  have "take i ?ks = filter (\<lambda>k. k < ?ks ! i) ?ks"
    using assms by (simp add: take_sorted_filter strict_sorted_keys)
  then have s: "?s = sum_list (map (length \<circ> snd) (filter (\<lambda>kv. fst kv < ?ks ! i) fs))"
    using sum_smaller_kinds [OF assms(1), of "\<lambda>k. k < ?ks ! i"] by (simp add: comp_def)
  have d: "descriptor_at (packet pt fs) i = Some (?ks ! i, ?off, ?len)"
    using assms(2) by (simp add: descriptor_at_packet table_of_nth)
  have v: "take (unat ?len) (drop (8 + unat ?off) (packet pt fs)) = index fs (?ks ! i)"
    unfolding off len by (rule value_at [OF assms(2)])
  from d off len v s show ?thesis
    unfolding assemble_Buffer by (metis res.inject)
qed

theorem value_offset_from_table_start_witness:
  "distinct (map fst fields) \<and> (2::nat) < length fields \<and>
   5 * length fields + 1 + sum_list (map (length \<circ> snd) fields) < 65536 \<and>
   (\<exists>pkt off len. assemble bytes_Buffer 0x12 fields = Ok pkt \<and>
      descriptor_at pkt 2 = Some (preloginINSTOPT, off, len) \<and>
      unat off = 33 \<and> unat len = 9 \<and>
      take (unat len) (drop (8 + unat off) pkt) = [0x74, 0x65, 0x6c, 0x65, 0x70, 0x6f, 0x72, 0x74, 0])"
proof -
  have h1: "distinct (map fst fields)" by (rule fields_distinct)
  have h2: "(2::nat) < length fields" by (simp add: fields_def)
  have h3: "5 * length fields + 1 + sum_list (map (length \<circ> snd) fields) < 65536"
    unfolding fields_size by simp
  have k: "sort (map fst fields) ! 2 = preloginINSTOPT"
    by (simp add: fields_sorted preloginINSTOPT_def)
  have s: "5 * length fields + 1 +
      sum_list (map (length \<circ> snd) (filter (\<lambda>kv. fst kv < preloginINSTOPT) fields)) = 33"
    by (simp add: fields_def const_defs)
  have v: "index fields preloginINSTOPT = [0x74, 0x65, 0x6c, 0x65, 0x70, 0x6f, 0x72, 0x74, 0]"
    by (simp add: index_fields preloginINSTOPT_def)
  have lv: "length (index fields preloginINSTOPT) = 9"
    by (simp add: v)
  note t = value_offset_from_table_start [OF h1 h2 h3, of "0x12", unfolded k s lv, unfolded v]
  from t h1 h2 h3 show ?thesis
    by blast
qed

subsection \<open>C2: the offset formula\<close>

text \<open>
  C2: the descriptor entry at position \<open>i\<close> in ascending order of kind holds the kind
  \<open>sort (map fst fs) ! i\<close>, and its offset field is \<open>5 * count + 1\<close> plus the lengths of the
  values of the options before it in that order, as a 16-bit value; it is that number itself
  whenever descriptor table, terminator and values together take fewer than 65536 bytes.
\<close>

theorem descriptor_offset_formula:
  assumes "distinct (map fst fs)" and "i < length fs"
  shows "\<exists>pkt off len. assemble bytes_Buffer pt fs = Ok pkt \<and>
      descriptor_at pkt i = Some (sort (map fst fs) ! i, off, len) \<and>
      off = of_nat (5 * length fs + 1 +
              sum_list (map (\<lambda>k. length (index fs k)) (take i (sort (map fst fs))))) \<and>
      (5 * length fs + 1 + sum_list (map (length \<circ> snd) fs) < 65536 \<longrightarrow>
       unat off = 5 * length fs + 1 +
              sum_list (map (\<lambda>k. length (index fs k)) (take i (sort (map fst fs)))))"
proof -
  let ?n = "5 * length fs + 1 +
              sum_list (map (\<lambda>k. length (index fs k)) (take i (sort (map fst fs))))"
  have d: "descriptor_at (packet pt fs) i =
      Some (sort (map fst fs) ! i, of_nat ?n, of_nat (length (index fs (sort (map fst fs) ! i))))"
    using assms(2) by (simp only: descriptor_at_packet table_of_nth)
  have u: "5 * length fs + 1 + sum_list (map (length \<circ> snd) fs) < 65536 \<longrightarrow>
      unat (of_nat ?n :: uint16) = ?n"
    using payload_bound [OF assms(1)] unat_fits by blast
  from d u show ?thesis
    unfolding assemble_Buffer by blast
qed

theorem descriptor_offset_formula_witness:
  "distinct (map fst fields) \<and> (3::nat) < length fields \<and>
   5 * length fields + 1 + sum_list (map (length \<circ> snd) fields) < 65536 \<and>
   (\<exists>pkt off len. assemble bytes_Buffer 0x12 fields = Ok pkt \<and>
      descriptor_at pkt 3 = Some (preloginTHREADID, off, len) \<and>
      off = 42 \<and> unat off = 5 * 5 + 1 + (6 + 1 + 9))"
proof -
  have h1: "distinct (map fst fields)" by (rule fields_distinct)
  have h2: "(3::nat) < length fields" by (simp add: length_fields)
  have h3: "5 * length fields + 1 + sum_list (map (length \<circ> snd) fields) < 65536"
    unfolding fields_size by simp
  have k: "sort (map fst fields) ! 3 = preloginTHREADID"
    by (simp add: fields_sorted preloginTHREADID_def)
  have s: "5 * length fields + 1 +
      sum_list (map (\<lambda>k. length (index fields k)) (take 3 (sort (map fst fields)))) = 42"
    by (simp add: fields_sorted length_fields index_fields)
  note t = descriptor_offset_formula [OF h1 h2, of "0x12", unfolded k s]
  from t h1 h2 h3 show ?thesis
    by auto
qed

subsection \<open>C3: the length field of the header\<close>

text \<open>
  C3: the packet is 8 header bytes, 5 bytes per option, the terminator and the values; bytes
  2 and 3 of the header hold the length of the whole packet as a big-endian 16-bit value,
  which is the length itself whenever the packet is shorter than 65536 bytes.
\<close>

theorem header_length_is_packet_length:
  assumes "distinct (map fst fs)"
  shows "\<exists>pkt. assemble bytes_Buffer pt fs = Ok pkt \<and>
      length pkt = 8 + 5 * length fs + 1 + sum_list (map (length \<circ> snd) fs) \<and>
      header_length pkt = Some (of_nat (length pkt)) \<and>
      (length pkt < 65536 \<longrightarrow> map_option unat (header_length pkt) = Some (length pkt))"
proof -
  have l: "length (packet pt fs) = 8 + 5 * length fs + 1 + sum_list (map (length \<circ> snd) fs)"
    by (simp only: length_packet length_body sum_all_kinds [OF assms])
  have h: "header_length (packet pt fs) = Some (of_nat (length (packet pt fs)))"
    by (rule header_length_packet)
  have u: "length (packet pt fs) < 65536 \<longrightarrow>
      map_option unat (header_length (packet pt fs)) = Some (length (packet pt fs))"
    unfolding h using unat_fits by simp
  from l h u show ?thesis
    unfolding assemble_Buffer by blast
qed

theorem header_length_is_packet_length_witness:
  "distinct (map fst fields) \<and>
   (\<exists>pkt. assemble bytes_Buffer 0x12 fields = Ok pkt \<and> length pkt = 55 \<and>
      length pkt < 65536 \<and> map_option unat (header_length pkt) = Some 55)"
proof -
  have h1: "distinct (map fst fields)" by (rule fields_distinct)
  have s: "8 + 5 * length fields + 1 + sum_list (map (length \<circ> snd) fields) = 55"
    by (simp add: fields_def)
  note t = header_length_is_packet_length [OF h1, of "0x12", unfolded s]
  from t h1 show ?thesis
    by auto
qed

subsection \<open>C4: ascending kinds, terminator, values in the same order\<close>

text \<open>
  C4: for a map whose kinds do not include the terminator 0xFF, the kind fields of the
  descriptor entries are the kinds in strictly ascending order; right after the last entry
  comes the terminator byte, and after it the values, concatenated in the same ascending
  order of kind, up to the end of the packet; 0xFF is the kind field of no entry.
\<close>

theorem table_and_values_ascending:
  assumes "distinct (map fst fs)" and "preloginTERMINATOR \<notin> fst ` set fs"
  shows "\<exists>pkt. assemble bytes_Buffer pt fs = Ok pkt \<and>
      kinds_in pkt (length fs) = map Some (sort (map fst fs)) \<and>
      sorted_wrt (<) (sort (map fst fs)) \<and>
      drop (8 + 5 * length fs) pkt =
        preloginTERMINATOR # concat (map (index fs) (sort (map fst fs))) \<and>
      Some preloginTERMINATOR \<notin> set (kinds_in pkt (length fs))"
proof -
  have k: "kinds_in (packet pt fs) (length fs) = map Some (sort (map fst fs))"
    by (rule nth_equalityI) (simp_all add: kinds_in_def descriptor_at_packet table_of_nth)
  have "drop (8 + 5 * length fs) (packet pt fs) = drop (5 * length fs) (drop 8 (packet pt fs))"
    by (simp add: add.commute)
  also have "\<dots> = preloginTERMINATOR # concat (map (index fs) (sort (map fst fs)))"
    by (simp add: drop8_packet length_entries length_table_of sorted_keys_def)
  finally have d: "drop (8 + 5 * length fs) (packet pt fs) =
      preloginTERMINATOR # concat (map (index fs) (sort (map fst fs)))" .
  have t: "Some preloginTERMINATOR \<notin> set (kinds_in (packet pt fs) (length fs))"
    using assms(2) unfolding k by auto
  from k d t strict_sorted_keys [OF assms(1)] show ?thesis
    by (simp add: assemble_Buffer)
qed

theorem table_and_values_ascending_witness:
  "distinct (map fst fields) \<and> preloginTERMINATOR \<notin> fst ` set fields \<and>
   (\<exists>pkt. assemble bytes_Buffer 0x12 fields = Ok pkt \<and>
      kinds_in pkt 5 = [Some 0, Some 1, Some 2, Some 3, Some 4] \<and>
      drop (8 + 5 * 5) pkt =
        [0xFF, 0, 0, 0, 0, 0, 0, 2, 0x74, 0x65, 0x6c, 0x65, 0x70, 0x6f, 0x72, 0x74, 0,
         0, 0, 0, 0, 0])"
proof -
  have h1: "distinct (map fst fields)" by (rule fields_distinct)
  have h2: "preloginTERMINATOR \<notin> fst ` set fields"
    by (simp add: fields_def const_defs)
  have v: "preloginTERMINATOR # concat (map (index fields) [0, 1, 2, 3, 4]) =
      [0xFF, 0, 0, 0, 0, 0, 0, 2, 0x74, 0x65, 0x6c, 0x65, 0x70, 0x6f, 0x72, 0x74, 0,
       0, 0, 0, 0, 0]"
    by (simp add: index_fields preloginTERMINATOR_def)
  note t = table_and_values_ascending [OF h1 h2, of "0x12", unfolded fields_sorted length_fields v]
  from t h1 h2 show ?thesis
    by auto
qed

subsection \<open>C5: decoding the packet\<close>

text \<open>
  C5 (as stated, it fails): decoding by the inverse of the documented layout, in which the
  offset of a value counts from the start of the packet, would give back the option map. In
  the packet that \<open>WritePrelogin\<close> sends, the entry of VERSION stores the offset 26; bytes
  26 to 31 of the packet lie inside the descriptor table, and the decoder returns
  [0, 4, 4, 0, 46, 0] for VERSION, whose value is six zero bytes.
\<close>

theorem absolute_decoding_counterexample:
  "lookup_decoded (decode_absolute (transmitted (WritePrelogin 0x12 conn_ok))) preloginVERSION =
     Some [0, 4, 4, 0, 46, 0] \<and>
   map_of fields preloginVERSION = Some [0, 0, 0, 0, 0, 0]"
proof -
  let ?p = "packet 0x12 fields"
  have t: "read_table (drop 8 ?p) = Some [(0, 26, 6), (1, 32, 1), (2, 33, 9), (3, 42, 4), (4, 46, 1)]"
    using read_table_packet [OF fields_no_terminator, of "0x12"] by (simp add: table_of_fields)
  have r: "list_all (in_range ?p) [(0, 26, 6), (1, 32, 1), (2, 33, 9), (3, 42, 4), (4, 46, 1)]"
    by (simp add: in_range_def length_packet_fields)
  have v: "value_of ?p (0, 26, 6) = (0, [0, 4, 4, 0, 46, 0])"
    by (simp add: value_of_def packet_fields)
  have d: "decode_absolute ?p =
      Some (map_of (map (value_of ?p) [(0, 26, 6), (1, 32, 1), (2, 33, 9), (3, 42, 4), (4, 46, 1)]))"
    unfolding decode_absolute_def t by (simp only: option.case r if_True) (simp add: length_packet_fields)
  have "lookup_decoded (decode_absolute ?p) preloginVERSION = Some [0, 4, 4, 0, 46, 0]"
    unfolding d by (simp add: lookup_decoded_def v preloginVERSION_def)
  moreover have "map_of fields preloginVERSION = Some [0, 0, 0, 0, 0, 0]"
    by (simp add: fields_def const_defs)
  ultimately show ?thesis
    by (simp add: WritePrelogin_ok transmitted_def)
qed

text \<open>
  C5 (amended): take the offsets from the start of the descriptor table (byte 8 of the
  packet), as the encoder writes them. Then for every option map with distinct kinds other
  than 0xFF and values of at most 65535 bytes, in which the offset of every option, that is
  5 * count + 1 plus the value bytes of the options of smaller kind, is at most 65535,
  decoding the packet built by the encoder gives exactly the original map from kinds to
  values. The map of \<open>WritePrelogin\<close> is such a map: its largest offset is 46.
\<close>

theorem decode_inverts_encode:
  assumes "distinct (map fst fs)"
    and "preloginTERMINATOR \<notin> fst ` set fs"
    and "\<forall>kv \<in> set fs. length (snd kv) \<le> 65535"
    and "\<forall>kv \<in> set fs. 5 * length fs + 1 +
           sum_list (map (length \<circ> snd) (filter (\<lambda>kv'. fst kv' < fst kv) fs)) \<le> 65535"
  shows "\<exists>pkt. assemble bytes_Buffer pt fs = Ok pkt \<and> decode pkt = Some (map_of fs)"
proof -
  have "\<not> length (packet pt fs) < 8"
    by (simp add: length_packet length_body)
  then have "decode (packet pt fs) = Some (map_of fs)"
    unfolding decode_def read_table_packet [OF assms(2)]
    by (simp only: if_False option.case table_in_range [OF assms(1,3,4)] if_True
        table_values [OF assms(1,3,4)] map_of_sorted_keys [OF assms(1)])
  then show ?thesis
    unfolding assemble_Buffer by blast
qed

theorem decode_inverts_encode_witness:
  "distinct (map fst fields) \<and> preloginTERMINATOR \<notin> fst ` set fields \<and>
   list_all (\<lambda>kv. length (snd kv) \<le> 65535) fields \<and>
   list_all (\<lambda>kv. 5 * length fields + 1 +
      sum_list (map (length \<circ> snd) (filter (\<lambda>kv'. fst kv' < fst kv) fields)) \<le> 65535) fields \<and>
   (\<exists>pkt. assemble bytes_Buffer 0x12 fields = Ok pkt \<and> decode pkt = Some (map_of fields)) \<and>
   lookup_decoded (decode (transmitted (WritePrelogin 0x12 conn_ok))) preloginVERSION =
     Some [0, 0, 0, 0, 0, 0]"
proof -
  note h = fields_distinct fields_no_terminator fields_values_fit fields_offsets_fit
  note t = decode_inverts_encode [OF h, of "0x12"]
  have m: "map_of fields preloginVERSION = Some [0, 0, 0, 0, 0, 0]"
    by (simp add: fields_def const_defs)
  from t have "decode (packet 0x12 fields) = Some (map_of fields)"
    by (simp add: assemble_Buffer)
  then have "lookup_decoded (decode (transmitted (WritePrelogin 0x12 conn_ok))) preloginVERSION =
      Some [0, 0, 0, 0, 0, 0]"
    by (simp add: WritePrelogin_ok transmitted_def lookup_decoded_def m)
  with t h show ?thesis
    unfolding list_all_iff by blast
qed

subsection \<open>C6: one write of the whole packet, or none\<close>

text \<open>
  C6: whatever the buffer methods do, \<open>WritePrelogin\<close> calls \<open>conn.Write\<close> at most once (no
  retry); the argument of that call is the completely assembled packet, and the function
  then returns \<open>nil\<close> if the call returned no error and the error wrapped by \<open>trace.Wrap\<close>
  otherwise; when no call is made, nothing has been handed to the connection and the
  function does not return \<open>nil\<close>: it ends the way the assembly ended.
\<close>

theorem single_write_of_whole_packet:
  "length (fst (WritePrelogin_on wr pt fs conn)) \<le> 1 \<and>
   (\<forall>p \<in> set (fst (WritePrelogin_on wr pt fs conn)).
      assemble wr pt fs = Ok p \<and>
      snd (WritePrelogin_on wr pt fs conn) =
        (case snd (conn p) of None \<Rightarrow> Ok () | Some err \<Rightarrow> ReturnErr (TraceWrap err))) \<and>
   (fst (WritePrelogin_on wr pt fs conn) = [] \<longrightarrow>
      snd (WritePrelogin_on wr pt fs conn) \<noteq> Ok () \<and>
      snd (WritePrelogin_on wr pt fs conn) = map_res (\<lambda>_. ()) (assemble wr pt fs))"
  by (cases "assemble wr pt fs"; cases "conn (case assemble wr pt fs of Ok p \<Rightarrow> p)")
     (auto simp add: WritePrelogin_on_def split: option.splits)

theorem single_write_of_whole_packet_witness:
  "fst (WritePrelogin 0x12 conn_closed) = [packet 0x12 fields] \<and>
   assemble bytes_Buffer 0x12 fields = Ok (packet 0x12 fields) \<and>
   snd (WritePrelogin 0x12 conn_closed) =
     ReturnErr (TraceWrap (Err ''use of closed network connection'')) \<and>
   fst (WritePrelogin_on truncating_writer 0x12 fields conn_ok) = [] \<and>
   snd (WritePrelogin_on truncating_writer 0x12 fields conn_ok) \<noteq> Ok ()"
proof -
  have a: "fst (WritePrelogin 0x12 conn_closed) = [packet 0x12 fields]"
    by (simp add: WritePrelogin_def WritePrelogin_on_def assemble_Buffer conn_closed_def)
  have b: "fst (WritePrelogin_on truncating_writer 0x12 fields conn_ok) = []"
    by (simp add: WritePrelogin_on_def truncating_assemble)
  from single_write_of_whole_packet [of bytes_Buffer "0x12" fields conn_closed]
    single_write_of_whole_packet [of truncating_writer "0x12" fields conn_ok] a b
  show ?thesis
    by (simp add: WritePrelogin_def conn_closed_def truncating_assemble)
qed

subsection \<open>C7: a short write of a value is an error\<close>

text \<open>
  C7: take any buffer methods and follow a run up to the write of some value: the first loop
  and the terminator went through, and so did the values before kind \<open>k\<close>. If the \<open>Write\<close>
  of the value of \<open>k\<close> then reports fewer bytes than the value has, \<open>WritePrelogin\<close> returns
  an error and hands nothing to the connection: the error of that \<open>Write\<close> if it returned
  one, and otherwise the error "write method didn't write the whole value".
\<close>

theorem short_write_is_error:
  assumes "write_descriptors wr fs (sort (map fst fs)) [pt, 1, 0, 0, 0, 0, 0, 0]
             (of_nat (5 * length fs + 1)) = Ok (w1, offset')"
    and "WriteByte wr w1 preloginTERMINATOR = (w2, None)"
    and "sort (map fst fs) = before @ k # after"
    and "write_values wr fs before w2 = Ok w3"
    and "Write wr w3 (index fs k) = (w4, written, err)"
    and "written < int (length (index fs k))"
  shows "WritePrelogin_on wr pt fs conn =
           ([], ReturnErr (case err of None \<Rightarrow> whole_value_error | Some e \<Rightarrow> e))"
proof -
  have "write_values wr fs (k # after) w3 =
      ReturnErr (case err of None \<Rightarrow> whole_value_error | Some e \<Rightarrow> e)"
    using assms(5,6) by (simp add: Let_def split: option.splits)
  then have "write_values wr fs (sort (map fst fs)) w2 =
      ReturnErr (case err of None \<Rightarrow> whole_value_error | Some e \<Rightarrow> e)"
    unfolding assms(3) write_values_append assms(4) by simp
  then have "assemble wr pt fs = ReturnErr (case err of None \<Rightarrow> whole_value_error | Some e \<Rightarrow> e)"
    using assms(1,2) by (simp add: assemble_def)
  then show ?thesis
    by (simp add: WritePrelogin_on_def)
qed

theorem short_write_is_error_witness:
  "write_descriptors truncating_writer fields (sort (map fst fields)) [0x12, 1, 0, 0, 0, 0, 0, 0]
      (of_nat (5 * length fields + 1)) =
     Ok ([0x12, 1, 0, 0, 0, 0, 0, 0] @ concat (map entry_bytes (table_of fields)), 47) \<and>
   WriteByte truncating_writer
       ([0x12, 1, 0, 0, 0, 0, 0, 0] @ concat (map entry_bytes (table_of fields))) preloginTERMINATOR =
     ([0x12, 1, 0, 0, 0, 0, 0, 0] @ concat (map entry_bytes (table_of fields)) @ [0xFF], None) \<and>
   sort (map fst fields) = [] @ preloginVERSION # [1, 2, 3, 4] \<and>
   write_values truncating_writer fields []
       ([0x12, 1, 0, 0, 0, 0, 0, 0] @ concat (map entry_bytes (table_of fields)) @ [0xFF]) =
     Ok ([0x12, 1, 0, 0, 0, 0, 0, 0] @ concat (map entry_bytes (table_of fields)) @ [0xFF]) \<and>
   Write truncating_writer
       ([0x12, 1, 0, 0, 0, 0, 0, 0] @ concat (map entry_bytes (table_of fields)) @ [0xFF])
       (index fields preloginVERSION) =
     ([0x12, 1, 0, 0, 0, 0, 0, 0] @ concat (map entry_bytes (table_of fields)) @ [0xFF] @ [0, 0, 0, 0],
      4, None) \<and>
   4 < int (length (index fields preloginVERSION)) \<and>
   WritePrelogin_on truncating_writer 0x12 fields conn_ok = ([], ReturnErr whole_value_error)"
proof -
  let ?w1 = "[0x12, 1, 0, 0, 0, 0, 0, 0] @ concat (map entry_bytes (table_of fields))"
  have h1: "write_descriptors truncating_writer fields (sort (map fst fields))
      [0x12, 1, 0, 0, 0, 0, 0, 0] (of_nat (5 * length fields + 1)) = Ok (?w1, 47)"
    by (rule truncating_table)
  have h2: "WriteByte truncating_writer ?w1 preloginTERMINATOR = (?w1 @ [0xFF], None)"
    by (simp add: truncating_writer_def Buffer_WriteByte_def preloginTERMINATOR_def)
  have h3: "sort (map fst fields) = [] @ preloginVERSION # [1, 2, 3, 4]"
    by (simp add: fields_sorted preloginVERSION_def)
  have h4: "write_values truncating_writer fields [] (?w1 @ [0xFF]) = Ok (?w1 @ [0xFF])"
    by simp
  have h5: "Write truncating_writer (?w1 @ [0xFF]) (index fields preloginVERSION) =
      (?w1 @ [0xFF] @ [0, 0, 0, 0], 4, None)"
    by (simp add: truncating_writer_def truncating_Write_def index_fields preloginVERSION_def)
  have h6: "4 < int (length (index fields preloginVERSION))"
    by (simp add: index_fields preloginVERSION_def)
  from short_write_is_error [OF h1 h2 h3 h4 h5 h6, of conn_ok] h1 h2 h3 h4 h5 h6
  show ?thesis
    by simp
qed

subsection \<open>C9: the packet does not depend on the iteration order\<close>

text \<open>
  C9: two enumerations of the same option map, in whatever order \<open>range\<close> yields the keys,
  give the same result of the assembly, byte for byte, and the same run of \<open>WritePrelogin\<close>:
  the keys are sorted before anything is written.
\<close>

theorem encoding_deterministic:
  assumes "distinct (map fst fs)" and "distinct (map fst fs')" and "map_of fs = map_of fs'"
  shows "assemble wr pt fs = assemble wr pt fs' \<and>
         WritePrelogin_on wr pt fs conn = WritePrelogin_on wr pt fs' conn"
proof -
  have i: "index fs k = index fs' k" for k
    by (simp add: index_def assms(3))
  have "assemble wr pt fs = assemble wr pt fs'"
    unfolding assemble_def same_map_same_keys [OF assms]
      write_descriptors_index [of fs fs', OF i] write_values_index [of fs fs', OF i] ..
  then show ?thesis
    by (simp add: WritePrelogin_on_def)
qed

theorem encoding_deterministic_witness:
  "distinct (map fst fields) \<and> distinct (map fst (rev fields)) \<and>
   map_of fields = map_of (rev fields) \<and>
   assemble bytes_Buffer 0x12 fields = assemble bytes_Buffer 0x12 (rev fields) \<and>
   WritePrelogin 0x12 conn_ok = WritePrelogin_on bytes_Buffer 0x12 (rev fields) conn_ok"
proof -
  have h1: "distinct (map fst fields)" by (rule fields_distinct)
  have h2: "distinct (map fst (rev fields))"
    using h1 by (simp add: rev_map [symmetric])
  have h3: "map_of fields = map_of (rev fields)"
    using h1 h2 by (simp add: map_of_inject_set)
  from encoding_deterministic [OF h1 h2 h3, of bytes_Buffer "0x12" conn_ok] h1 h2 h3
  show ?thesis
    by (simp add: WritePrelogin_def)
qed

subsection \<open>C10: the error branches of the assembly are dead\<close>

text \<open>
  C10: with a \<open>bytes.Buffer\<close> both loops end without an error from any state of the buffer,
  the assembly yields a packet, the packet is passed to \<open>conn.Write\<close> in one call, and
  \<open>WritePrelogin\<close> returns \<open>nil\<close> exactly when that call returns no error.
\<close>

theorem buffer_errors_unreachable:
  "(\<exists>w' offset'. write_descriptors bytes_Buffer fs keys w offset = Ok (w', offset')) \<and>
   (\<exists>w'. write_values bytes_Buffer fs keys w = Ok w') \<and>
   (\<exists>pkt. assemble bytes_Buffer pt fs = Ok pkt \<and>
      fst (WritePrelogin_on bytes_Buffer pt fs conn) = [pkt] \<and>
      ((snd (WritePrelogin_on bytes_Buffer pt fs conn) = Ok ()) = (snd (conn pkt) = None))) \<and>
   (\<exists>pkt. fst (WritePrelogin pt conn) = [pkt] \<and>
      ((snd (WritePrelogin pt conn) = Ok ()) = (snd (conn pkt) = None)))"
proof -
  have r: "fst (WritePrelogin_on bytes_Buffer pt' fs' conn) = [packet pt' fs'] \<and>
      ((snd (WritePrelogin_on bytes_Buffer pt' fs' conn) = Ok ()) = (snd (conn (packet pt' fs')) = None))"
    for pt' fs'
    by (cases "conn (packet pt' fs')")
       (simp add: WritePrelogin_on_def assemble_Buffer split: option.splits)
  show ?thesis
    using r [of pt fs] r [of pt fields]
    by (simp add: write_descriptors_Buffer write_values_Buffer assemble_Buffer WritePrelogin_def)
qed

theorem buffer_errors_unreachable_witness:
  "snd (WritePrelogin 0x12 conn_ok) = Ok () \<and> snd (conn_ok (packet 0x12 fields)) = None \<and>
   snd (WritePrelogin 0x12 conn_closed) \<noteq> Ok () \<and> snd (conn_closed (packet 0x12 fields)) \<noteq> None"
  using buffer_errors_unreachable [of fields "[]" "[]" 0 "0x12" conn_ok]
    buffer_errors_unreachable [of fields "[]" "[]" 0 "0x12" conn_closed]
  by (auto simp add: conn_ok_def conn_closed_def)

end
